theory Spec2Isabelle
  imports Main
begin

section \<open>Data model\<close>

text \<open>
  The records follow the Go structs of \<^verbatim>\<open>stream.go\<close> and \<^verbatim>\<open>twitter.go\<close>. Go field names
  that occur in more than one struct (\<^verbatim>\<open>ID\<close>, \<^verbatim>\<open>Rule\<close>, \<^verbatim>\<open>Text\<close>, ...) carry the struct as
  a prefix, since record fields are global constants. Go's \<^verbatim>\<open>int\<close> fields are only copied,
  never computed with, so they are \<open>int\<close>. A channel value is represented by its identity.
\<close>

type_synonym chan = nat

record StreamRule =
  Rule_ID :: string
  Rule_Rule :: string

record StreamSubscription =
  Sub_Tweets :: chan
  Sub_Rule :: StreamRule

record Author =
  Author_Name :: string
  Author_Handle :: string
  Author_Picture :: string
  Author_Verified :: bool
  Author_ID :: string

record PollOption =
  Position :: int
  Label :: string
  Votes :: int

record Tweet =
  Tweet_ID :: string
  Tweet_Text :: string
  Tweet_Author :: Author
  Created :: string
  Images :: "string list"
  Retweets :: int
  Replies :: int
  Likes :: int
  Quotes :: int
  RuleIDs :: "string list"
  HasVideo :: bool
  VideoPreviewURL :: string
  Tweet_Sensitive :: bool
  Poll :: "PollOption list"

record metrics =
  metrics_Retweets :: int
  metrics_Replies :: int
  metrics_Likes :: int
  metrics_Quotes :: int

record attachments =
  MediaKeys :: "string list"
  PollIDs :: "string list"

record tweet =
  AuthorID :: string
  tweet_Text :: string
  tweet_ID :: string
  CreatedAt :: string
  Metrics :: metrics
  Attachments :: attachments
  tweet_Sensitive :: bool

record user =
  user_ID :: string
  user_Name :: string
  user_Handle :: string
  user_Picture :: string
  user_Verified :: bool

record media =
  MediaKey :: string
  media_Type :: string
  media_URL :: string
  VideoPreviewImageURL :: string

record poll =
  poll_Options :: "PollOption list"
  poll_ID :: string

record includesT =
  Users :: "user list"
  Media :: "media list"
  Polls :: "poll list"

record streamResponse =
  resp_Tweet :: tweet
  resp_Includes :: includesT
  Matches :: "StreamRule list"

section \<open>convertToTweet (twitter.go)\<close>

text \<open>The zero value of \<^verbatim>\<open>Author\<close>: what \<^verbatim>\<open>var author Author\<close> holds.\<close>

definition zeroAuthor :: Author where
  "zeroAuthor = \<lparr>Author_Name = [], Author_Handle = [], Author_Picture = [],
                  Author_Verified = False, Author_ID = []\<rparr>"

text \<open>The loop over \<^verbatim>\<open>incl.Users\<close>: the first user with the author's ID fills the author, then
  \<^verbatim>\<open>break\<close>.\<close>

fun resolveAuthor :: "user list \<Rightarrow> string \<Rightarrow> Author \<Rightarrow> Author" where
  "resolveAuthor [] aid author = author"
| "resolveAuthor (u # us) aid author =
     (if user_ID u = aid
      then author\<lparr>Author_Name := user_Name u, Author_Handle := user_Handle u,
                  Author_Picture := user_Picture u, Author_Verified := user_Verified u,
                  Author_ID := user_ID u\<rparr>
      else resolveAuthor us aid author)"

text \<open>The media loops. The accumulator is \<^verbatim>\<open>(images, hasVideo, videoPreview)\<close>; the
  \<^verbatim>\<open>switch\<close> has the cases \<^verbatim>\<open>"photo"\<close> and \<^verbatim>\<open>"video"\<close> and no default.\<close>

type_synonym mediaAcc = "string list \<times> bool \<times> string"

fun mediaItems :: "string \<Rightarrow> media list \<Rightarrow> mediaAcc \<Rightarrow> mediaAcc" where
  "mediaItems mediaKey [] acc = acc"
| "mediaItems mediaKey (mediaItem # rest) (images, hasVideo, videoPreview) =
     (if mediaKey = MediaKey mediaItem
      then (if media_Type mediaItem = ''photo''
            then mediaItems mediaKey rest (images @ [media_URL mediaItem], hasVideo, videoPreview)
            else if media_Type mediaItem = ''video''
            then mediaItems mediaKey rest (images, True, VideoPreviewImageURL mediaItem)
            else mediaItems mediaKey rest (images, hasVideo, videoPreview))
      else mediaItems mediaKey rest (images, hasVideo, videoPreview))"

fun mediaKeysLoop :: "string list \<Rightarrow> media list \<Rightarrow> mediaAcc \<Rightarrow> mediaAcc" where
  "mediaKeysLoop [] ms acc = acc"
| "mediaKeysLoop (mediaKey # keys) ms acc = mediaKeysLoop keys ms (mediaItems mediaKey ms acc)"

text \<open>The poll loops: every poll with a matching ID overwrites \<^verbatim>\<open>pollOptions\<close>.\<close>

fun pollItems :: "string \<Rightarrow> poll list \<Rightarrow> PollOption list \<Rightarrow> PollOption list" where
  "pollItems pollID [] pollOptions = pollOptions"
| "pollItems pollID (p # ps) pollOptions =
     (if poll_ID p = pollID then pollItems pollID ps (poll_Options p)
      else pollItems pollID ps pollOptions)"

fun pollIDsLoop :: "string list \<Rightarrow> poll list \<Rightarrow> PollOption list \<Rightarrow> PollOption list" where
  "pollIDsLoop [] ps pollOptions = pollOptions"
| "pollIDsLoop (pollID # ids) ps pollOptions = pollIDsLoop ids ps (pollItems pollID ps pollOptions)"

text \<open>\<^verbatim>\<open>matches\<close> is a pointer: \<open>None\<close> is \<^verbatim>\<open>nil\<close>. The function has no error result and no
  statement that can panic (\<^verbatim>\<open>rules[i]\<close> is within the length it was made with).\<close>

definition convertToTweet :: "tweet \<Rightarrow> includesT \<Rightarrow> StreamRule list option \<Rightarrow> Tweet" where
  "convertToTweet tw incl matches =
     (let author = resolveAuthor (Users incl) (AuthorID tw) zeroAuthor;
          (images, hasVideo, videoPreview) =
             mediaKeysLoop (MediaKeys (Attachments tw)) (Media incl) ([], False, []);
          pollOptions = pollIDsLoop (PollIDs (Attachments tw)) (Polls incl) [];
          rules = (case matches of None \<Rightarrow> [] | Some ms \<Rightarrow> map Rule_ID ms)
      in \<lparr>Tweet_ID = tweet_ID tw,
          Tweet_Text = tweet_Text tw,
          Tweet_Author = author,
          Created = CreatedAt tw,
          Images = images,
          Retweets = metrics_Retweets (Metrics tw),
          Replies = metrics_Replies (Metrics tw),
          Likes = metrics_Likes (Metrics tw),
          Quotes = metrics_Quotes (Metrics tw),
          RuleIDs = rules,
          HasVideo = hasVideo,
          VideoPreviewURL = videoPreview,
          Tweet_Sensitive = tweet_Sensitive tw,
          Poll = pollOptions\<rparr>)"

section \<open>Fan-out (stream.go, the forwarding goroutine of stream)\<close>

text \<open>
  For one tweet taken from \<^verbatim>\<open>tweetChan\<close>, the goroutine runs, under the client's lock,
  \<^verbatim>\<open>for _, sub := range tw.streamSubscribers { for _, match := range tweet.RuleIDs {
  if match == sub.Rule.ID { sub.Tweets <- tweet } } }\<close>.
  The model returns the sends in program order, each as the channel and the value sent.
  The channels are unbuffered: a send completes when the subscriber receives, and the loop
  goes on only then.
\<close>

fun sendMatches :: "StreamSubscription \<Rightarrow> Tweet \<Rightarrow> string list \<Rightarrow> (chan \<times> Tweet) list" where
  "sendMatches sub t [] = []"
| "sendMatches sub t (match # rest) =
     (if match = Rule_ID (Sub_Rule sub) then (Sub_Tweets sub, t) # sendMatches sub t rest
      else sendMatches sub t rest)"

fun forward :: "StreamSubscription list \<Rightarrow> Tweet \<Rightarrow> (chan \<times> Tweet) list" where
  "forward [] t = []"
| "forward (sub # subs) t = sendMatches sub t (RuleIDs t) @ forward subs t"

section \<open>Subscriptions (stream.go)\<close>

text \<open>
  Of the \<^verbatim>\<open>Client\<close> struct the model keeps the fields the streaming code reads and writes.
  \<^verbatim>\<open>Token\<close> and \<^verbatim>\<open>logger\<close> do not influence it; \<^verbatim>\<open>stopStreamChan\<close> and \<^verbatim>\<open>StreamedTweets\<close>
  are created once by \<^verbatim>\<open>New\<close> and never reassigned; the embedded mutex is the field \<open>parked\<close>
  of the runtime state below.
\<close>

record Client =
  streamSubscribers :: "StreamSubscription list"
  streaming :: bool
  EnableAllTweetsChannel :: bool

definition New :: Client where
  "New = \<lparr>streamSubscribers = [], streaming = False, EnableAllTweetsChannel = False\<rparr>"

text \<open>\<^verbatim>\<open>SubscribeStream\<close>; \<open>results\<close> is the channel that \<^verbatim>\<open>make(chan Tweet)\<close> returned.\<close>

definition SubscribeStream :: "Client \<Rightarrow> chan \<Rightarrow> StreamRule \<Rightarrow> StreamSubscription \<times> Client" where
  "SubscribeStream tw results rule =
     (let sub = \<lparr>Sub_Tweets = results, Sub_Rule = rule\<rparr>
      in (sub, tw\<lparr>streamSubscribers := streamSubscribers tw @ [sub]\<rparr>))"

text \<open>
  The search loop of \<^verbatim>\<open>UnsubscribeStream\<close>, from position \<open>i\<close> on, with the current values of
  \<^verbatim>\<open>index\<close> (\<open>-1\<close>: not found) and \<^verbatim>\<open>ruleIsOrphaned\<close>. \<^verbatim>\<open>subToRemove == sub\<close> compares the
  channel identity and both strings of the rule, which is equality of the records. The loop
  leaves early (\<^verbatim>\<open>break\<close>) once the subscription is found and a sibling is known.
\<close>

fun scanSubscribers ::
  "StreamSubscription \<Rightarrow> StreamSubscription list \<Rightarrow> int \<Rightarrow> int \<Rightarrow> bool \<Rightarrow> int \<times> bool" where
  "scanSubscribers subToRemove [] i index ruleIsOrphaned = (index, ruleIsOrphaned)"
| "scanSubscribers subToRemove (sub # rest) i index ruleIsOrphaned =
     (let index' = (if subToRemove = sub then i else index);
          orphaned' = (if subToRemove = sub then ruleIsOrphaned
                       else if Rule_ID (Sub_Rule subToRemove) = Rule_ID (Sub_Rule sub) then False
                       else ruleIsOrphaned)
      in if index' \<noteq> -1 \<and> \<not> orphaned' then (index', orphaned')
         else scanSubscribers subToRemove rest (i + 1) index' orphaned')"

text \<open>
  What \<^verbatim>\<open>UnsubscribeStream\<close> does after the slice update, in program order: it starts the
  goroutine that deletes the rule or logs that it keeps it, sends on \<^verbatim>\<open>stopStreamChan\<close> when
  no subscriber is left, and closes the channel of the subscription it was given.
\<close>

datatype action =
    GoDeleteStreamRule StreamRule
  | GoKeepRule StreamRule
  | SendStop
  | CloseTweets chan

definition UnsubscribeStream :: "Client \<Rightarrow> StreamSubscription \<Rightarrow> Client \<times> action list" where
  "UnsubscribeStream tw subToRemove =
     (let (index, ruleIsOrphaned) =
             scanSubscribers subToRemove (streamSubscribers tw) 0 (-1) True;
          subs = (if index \<noteq> -1
                  then take (nat index) (streamSubscribers tw) @
                       drop (nat index + 1) (streamSubscribers tw)
                  else streamSubscribers tw)
      in (tw\<lparr>streamSubscribers := subs\<rparr>,
          [if ruleIsOrphaned then GoDeleteStreamRule (Sub_Rule subToRemove)
           else GoKeepRule (Sub_Rule subToRemove)] @
          (if length subs = 0 then [SendStop] else []) @
          [CloseTweets (Sub_Tweets subToRemove)]))"

text \<open>The rules whose deletion a list of actions requests.\<close>

fun deletions :: "action list \<Rightarrow> StreamRule list" where
  "deletions [] = []"
| "deletions (GoDeleteStreamRule r # as) = r # deletions as"
| "deletions (a # as) = deletions as"

text \<open>\<^verbatim>\<open>StartStream\<close>; the flag of the result says whether \<^verbatim>\<open>go tw.stream()\<close> was executed.\<close>

definition StartStream :: "Client \<Rightarrow> Client \<times> bool" where
  "StartStream tw = (if \<not> streaming tw then (tw\<lparr>streaming := True\<rparr>, True) else (tw, False))"

section \<open>The client with its goroutines\<close>

text \<open>
  A call of \<^verbatim>\<open>stream\<close> is at one of three places: before the response of the streaming
  request has arrived, at its \<^verbatim>\<open>select\<close>, or returned. \<open>bodyOpen\<close> says that the response body
  is open (the connection is held), \<open>cancelled\<close> that \<^verbatim>\<open>cancelRequest\<close> has run. \<open>decoding\<close>
  and \<open>forwarding\<close> say that the decoding goroutine and the forwarding goroutine that the
  call started just before its \<^verbatim>\<open>select\<close> have not ended.
\<close>

datatype pc = Connecting | Selecting | Returned

record pump =
  pump_pc :: pc
  cancelled :: bool
  bodyOpen :: bool
  decoding :: bool
  forwarding :: bool

datatype event =
    Subscribed StreamSubscription
  | UnsubscribeCalled StreamSubscription
  | DeleteRequested StreamRule
  | StopReceived nat
  | Closed chan
  | ClosePanic chan

text \<open>
  \<open>chansMade\<close> counts the channels made so far, so it is the identity of the next one;
  \<open>closedChans\<close> are the closed ones. \<open>parked = Some as\<close> says that a call of
  \<^verbatim>\<open>UnsubscribeStream\<close> holds the lock and waits in \<^verbatim>\<open>tw.stopStreamChan <- true\<close> for a
  receiver, with the actions \<open>as\<close> still to do. \<open>stopSenders\<close> counts the calls of
  \<^verbatim>\<open>StopStream\<close> that wait in the same send. \<open>trace\<close> records what has happened.
\<close>

record world =
  client :: Client
  chansMade :: nat
  closedChans :: "chan list"
  pumps :: "pump list"
  parked :: "action list option"
  stopSenders :: nat
  trace :: "event list"

definition initial :: world where
  "initial = \<lparr>client = New, chansMade = 0, closedChans = [], pumps = [], parked = None,
               stopSenders = 0, trace = []\<rparr>"

text \<open>The first call of \<^verbatim>\<open>stream\<close> that waits at its \<^verbatim>\<open>select\<close>, counting from \<open>k\<close>.\<close>

fun firstSelecting :: "pump list \<Rightarrow> nat \<Rightarrow> nat option" where
  "firstSelecting [] k = None"
| "firstSelecting (p # ps) k =
     (if pump_pc p = Selecting then Some k else firstSelecting ps (Suc k))"

text \<open>
  The return of call \<open>i\<close> of \<^verbatim>\<open>stream\<close>. Its deferred calls run last-in first-out:
  \<^verbatim>\<open>resp.Body.Close()\<close> (registered only once the response is there), \<^verbatim>\<open>cancelRequest()\<close>,
  \<^verbatim>\<open>tw.streaming = false\<close>. Nothing in them waits for the two goroutines.
\<close>

definition streamReturn :: "nat \<Rightarrow> world \<Rightarrow> world" where
  "streamReturn i w =
     w\<lparr>pumps := (pumps w)[i := (pumps w ! i)\<lparr>pump_pc := Returned, cancelled := True,
                                              bodyOpen := False\<rparr>],
       client := (client w)\<lparr>streaming := False\<rparr>\<rparr>"

text \<open>
  The actions of \<^verbatim>\<open>UnsubscribeStream\<close> in the runtime. The send on the unbuffered
  \<^verbatim>\<open>stopStreamChan\<close> completes only with a call of \<^verbatim>\<open>stream\<close> at its \<^verbatim>\<open>select\<close>, which then
  returns; without one the caller stays parked with the lock. Closing a closed channel panics;
  the deferred \<^verbatim>\<open>tw.Unlock()\<close> runs in both endings.
\<close>

fun perform :: "action list \<Rightarrow> world \<Rightarrow> world" where
  "perform [] w = w\<lparr>parked := None\<rparr>"
| "perform (GoDeleteStreamRule r # as) w =
     perform as (w\<lparr>trace := trace w @ [DeleteRequested r]\<rparr>)"
| "perform (GoKeepRule r # as) w = perform as w"
| "perform (SendStop # as) w =
     (case firstSelecting (pumps w) 0 of
        None \<Rightarrow> w\<lparr>parked := Some as\<rparr>
      | Some i \<Rightarrow> perform as (streamReturn i (w\<lparr>trace := trace w @ [StopReceived i]\<rparr>)))"
| "perform (CloseTweets ch # as) w =
     (if ch \<in> set (closedChans w)
      then w\<lparr>trace := trace w @ [ClosePanic ch], parked := None\<rparr>
      else perform as (w\<lparr>closedChans := ch # closedChans w, trace := trace w @ [Closed ch]\<rparr>))"

text \<open>
  The steps of the system. The first four are calls of the client's methods, the others are
  steps of call \<open>i\<close> of \<^verbatim>\<open>stream\<close>: the response arrives; building or sending the request
  fails; an error arrives on \<^verbatim>\<open>errChan\<close>, sent by the decoding goroutine; a stop signal
  arrives from a parked \<^verbatim>\<open>UnsubscribeStream\<close> or from a parked \<^verbatim>\<open>StopStream\<close>; the decoding
  goroutine ends
  (\<^verbatim>\<open>decoder.More()\<close> is false and \<^verbatim>\<open>tweetChan\<close> is closed); the forwarding goroutine ends
  (its \<^verbatim>\<open>range\<close> over the closed \<^verbatim>\<open>tweetChan\<close> is over). A step that cannot be taken in a
  state (the lock is held, the call of \<^verbatim>\<open>stream\<close> is elsewhere) leaves the state as it is.
\<close>

datatype op =
    OpSubscribe StreamRule
  | OpUnsubscribe StreamSubscription
  | OpStartStream
  | OpStopStream
  | PumpConnected nat
  | PumpRequestFailed nat
  | PumpGotError nat
  | PumpGotStopFromUnsubscribe nat
  | PumpGotStopFromStopStream nat
  | DecoderEnds nat
  | ForwarderEnds nat

definition pumpAt :: "world \<Rightarrow> nat \<Rightarrow> pc \<Rightarrow> bool" where
  "pumpAt w i p = (i < length (pumps w) \<and> pump_pc (pumps w ! i) = p)"

fun exec :: "world \<Rightarrow> op \<Rightarrow> world" where
  "exec w (OpSubscribe rule) =
     (if parked w \<noteq> None then w
      else (let (sub, tw) = SubscribeStream (client w) (chansMade w) rule
            in w\<lparr>client := tw, chansMade := Suc (chansMade w),
                 trace := trace w @ [Subscribed sub]\<rparr>))"
| "exec w (OpUnsubscribe s) =
     (if parked w \<noteq> None then w
      else (let (tw, acts) = UnsubscribeStream (client w) s
            in perform acts (w\<lparr>client := tw, trace := trace w @ [UnsubscribeCalled s]\<rparr>)))"
| "exec w OpStartStream =
     (if parked w \<noteq> None then w
      else (let (tw, launched) = StartStream (client w)
            in w\<lparr>client := tw,
                 pumps := (if launched
                           then pumps w @ [\<lparr>pump_pc = Connecting, cancelled = False, bodyOpen = False,
                                            decoding = False, forwarding = False\<rparr>]
                           else pumps w)\<rparr>))"
| "exec w OpStopStream =
     (case firstSelecting (pumps w) 0 of
        None \<Rightarrow> w\<lparr>stopSenders := Suc (stopSenders w)\<rparr>
      | Some i \<Rightarrow> streamReturn i (w\<lparr>trace := trace w @ [StopReceived i]\<rparr>))"
| "exec w (PumpConnected i) =
     (if pumpAt w i Connecting
      then w\<lparr>pumps := (pumps w)[i := (pumps w ! i)\<lparr>pump_pc := Selecting, bodyOpen := True,
                                                  decoding := True, forwarding := True\<rparr>]\<rparr>
      else w)"
| "exec w (PumpRequestFailed i) = (if pumpAt w i Connecting then streamReturn i w else w)"
| "exec w (PumpGotError i) =
     (if pumpAt w i Selecting \<and> decoding (pumps w ! i) then streamReturn i w else w)"
| "exec w (PumpGotStopFromUnsubscribe i) =
     (if pumpAt w i Selecting
      then (case parked w of
              None \<Rightarrow> w
            | Some as \<Rightarrow> perform as (streamReturn i (w\<lparr>trace := trace w @ [StopReceived i]\<rparr>)))
      else w)"
| "exec w (PumpGotStopFromStopStream i) =
     (if pumpAt w i Selecting \<and> 0 < stopSenders w
      then streamReturn i (w\<lparr>stopSenders := stopSenders w - 1,
                              trace := trace w @ [StopReceived i]\<rparr>)
      else w)"
| "exec w (DecoderEnds i) =
     (if i < length (pumps w) \<and> decoding (pumps w ! i)
      then w\<lparr>pumps := (pumps w)[i := (pumps w ! i)\<lparr>decoding := False\<rparr>]\<rparr>
      else w)"
| "exec w (ForwarderEnds i) =
     (if i < length (pumps w) \<and> forwarding (pumps w ! i) \<and> \<not> decoding (pumps w ! i)
      then w\<lparr>pumps := (pumps w)[i := (pumps w ! i)\<lparr>forwarding := False\<rparr>]\<rparr>
      else w)"

fun run :: "world \<Rightarrow> op list \<Rightarrow> world" where
  "run w [] = w"
| "run w (x # xs) = run (exec w x) xs"

text \<open>
  The subscriptions that a trace leaves subscribed: those returned by \<^verbatim>\<open>SubscribeStream\<close>
  and not passed to \<^verbatim>\<open>UnsubscribeStream\<close> afterwards, starting from the set \<open>L\<close>.
\<close>

fun liveAfter :: "StreamSubscription set \<Rightarrow> event list \<Rightarrow> StreamSubscription set" where
  "liveAfter L [] = L"
| "liveAfter L (Subscribed s # es) = liveAfter (insert s L) es"
| "liveAfter L (UnsubscribeCalled s # es) = liveAfter (L - {s}) es"
| "liveAfter L (e # es) = liveAfter L es"

text \<open>A call of \<^verbatim>\<open>stream\<close> is active until it returns.\<close>

definition active :: "pump \<Rightarrow> bool" where
  "active p = (pump_pc p \<noteq> Returned)"

text \<open>
  The state \<^verbatim>\<open>Stopped\<close> of the specification's state machine: the connection is released
  and the background goroutines for decoding and forwarding have ended.
\<close>

definition Stopped :: "pump \<Rightarrow> bool" where
  "Stopped p = (pump_pc p = Returned \<and> cancelled p \<and> \<not> bodyOpen p \<and>
                \<not> decoding p \<and> \<not> forwarding p)"

section \<open>The decoding goroutine of stream (stream.go)\<close>

datatype error =
    TransportError string
  | JSONError string
  | ReadError string
  | FailedToCreateRule
  | FailedToDeleteRule string

text \<open>
  The JSON decoder is library code. One call of \<^verbatim>\<open>decoder.Decode(&result)\<close> is represented by
  what it returns and what it leaves in \<^verbatim>\<open>result\<close> (the zero value, or the fields filled
  before a type mismatch); \<^verbatim>\<open>decoder.More()\<close> holds as long as such calls are left.
\<close>

type_synonym decoded = "error option \<times> streamResponse"

datatype chanOp =
    ErrChanSend error
  | ErrChanBlocked error
  | StreamedTweetsSend Tweet
  | TweetChanSend Tweet
  | TweetChanClose

text \<open>The statements after the error check of one iteration: convert, send on
  \<^verbatim>\<open>tw.StreamedTweets\<close> if enabled, send on \<^verbatim>\<open>tweetChan\<close>.\<close>

definition emitTweet :: "bool \<Rightarrow> streamResponse \<Rightarrow> chanOp list" where
  "emitTweet enableAll result =
     (let t = convertToTweet (resp_Tweet result) (resp_Includes result) (Some (Matches result))
      in (if enableAll then [StreamedTweetsSend t] else []) @ [TweetChanSend t])"

text \<open>
  The loop \<^verbatim>\<open>for decoder.More() { ... }\<close> followed by \<^verbatim>\<open>close(tweetChan)\<close>, as the channel
  operations of the goroutine in program order. \<open>atSelect\<close> says that \<^verbatim>\<open>stream\<close> still waits
  at its \<^verbatim>\<open>select\<close>: it receives one value from \<^verbatim>\<open>errChan\<close> and returns, so a later send on
  \<^verbatim>\<open>errChan\<close> never completes. The receivers of \<^verbatim>\<open>tw.StreamedTweets\<close> and \<^verbatim>\<open>tweetChan\<close> are
  taken to be ready.
\<close>

fun decodeLoop :: "bool \<Rightarrow> bool \<Rightarrow> decoded list \<Rightarrow> chanOp list" where
  "decodeLoop enableAll atSelect [] = [TweetChanClose]"
| "decodeLoop enableAll atSelect ((err, result) # rest) =
     (case err of
        None \<Rightarrow> emitTweet enableAll result @ decodeLoop enableAll atSelect rest
      | Some e \<Rightarrow>
          if atSelect
          then ErrChanSend e # emitTweet enableAll result @ decodeLoop enableAll False rest
          else [ErrChanBlocked e])"

text \<open>What the forwarding goroutine sends to the subscribers for these channel operations.\<close>

fun deliveries :: "StreamSubscription list \<Rightarrow> chanOp list \<Rightarrow> (chan \<times> Tweet) list" where
  "deliveries subs [] = []"
| "deliveries subs (TweetChanSend t # xs) = forward subs t @ deliveries subs xs"
| "deliveries subs (x # xs) = deliveries subs xs"

text \<open>The channel operations after the first send on \<^verbatim>\<open>errChan\<close>.\<close>

fun afterError :: "chanOp list \<Rightarrow> chanOp list" where
  "afterError [] = []"
| "afterError (ErrChanSend e # xs) = xs"
| "afterError (x # xs) = afterError xs"

section \<open>Rules (stream.go)\<close>

record streamRuleResponse =
  Rules :: "StreamRule list"
  Created :: int
  NotCreated :: int
  Errors :: "StreamRule list"

datatype body = AddRules "StreamRule list" | DeleteIds "string list"

record request =
  req_Method :: string
  req_URL :: string
  req_ContentType :: string
  req_Body :: body

text \<open>
  A response: its status, what \<^verbatim>\<open>ioutil.ReadAll\<close> of the body gives, and what decoding the
  body as \<^verbatim>\<open>streamRuleResponse\<close> gives.
\<close>

record response =
  StatusCode :: nat
  bodyData :: "error + string"
  bodyRules :: "error + streamRuleResponse"

text \<open>\<^verbatim>\<open>authenticatedTwitterRequest\<close> together with the server: an error or a response.\<close>

type_synonym transport = "request \<Rightarrow> error + response"

definition apiRoot :: string where
  "apiRoot = ''https://api.twitter.com/2''"

definition rulesURL :: string where
  "rulesURL = apiRoot @ ''/tweets/search/stream/rules''"

text \<open>A Go call either returns or panics.\<close>

datatype 'a outcome = Return 'a | Panic string

text \<open>
  \<^verbatim>\<open>http.NewRequest\<close> is given a constant method and URL, which it accepts, and
  \<^verbatim>\<open>json.Marshal\<close> of strings does not fail, so the first early return is not taken.
\<close>

definition createRuleRequest :: "string list \<Rightarrow> request" where
  "createRuleRequest options =
     \<lparr>req_Method = ''POST'', req_URL = rulesURL, req_ContentType = ''application/json'',
      req_Body = AddRules [\<lparr>Rule_ID = [], Rule_Rule = concat (map (\<lambda>option. '' '' @ option) options)\<rparr>]\<rparr>"

definition CreateStreamRule :: "transport \<Rightarrow> string list \<Rightarrow> (StreamRule \<times> error option) outcome" where
  "CreateStreamRule tr options =
     (let rule = \<lparr>Rule_ID = [], Rule_Rule = concat (map (\<lambda>option. '' '' @ option) options)\<rparr>
      in case tr (createRuleRequest options) of
           Inl err \<Rightarrow> Return (rule, Some err)
         | Inr result \<Rightarrow>
             if StatusCode result \<noteq> 201 then Return (rule, Some FailedToCreateRule)
             else (case bodyRules result of
                     Inl err \<Rightarrow> Return (rule, Some err)
                   | Inr r \<Rightarrow>
                       if Created r \<noteq> 1 \<and> length (Errors r) > 0
                       then Return (Errors r ! 0, None)
                       else (case Rules r of
                               [] \<Rightarrow> Panic ''index out of range''
                             | first # _ \<Rightarrow> Return (first, None))))"

definition deleteRulesRequest :: "StreamRule list \<Rightarrow> request" where
  "deleteRulesRequest rules =
     \<lparr>req_Method = ''POST'', req_URL = rulesURL, req_ContentType = ''application/json'',
      req_Body = DeleteIds (map Rule_ID rules)\<rparr>"

text \<open>The result is the request handed to \<^verbatim>\<open>authenticatedTwitterRequest\<close> and the error
  returned (\<open>None\<close> is \<^verbatim>\<open>nil\<close>).\<close>

definition DeleteStreamRules :: "transport \<Rightarrow> StreamRule list \<Rightarrow> request \<times> error option" where
  "DeleteStreamRules tr rules =
     (let req = deleteRulesRequest rules
      in (req,
          case tr req of
            Inl err \<Rightarrow> Some err
          | Inr result \<Rightarrow>
              (case bodyData result of
                 Inl err \<Rightarrow> Some err
               | Inr data \<Rightarrow>
                   if StatusCode result \<noteq> 200 then Some (FailedToDeleteRule data) else None)))"

definition DeleteStreamRule :: "transport \<Rightarrow> StreamRule \<Rightarrow> request \<times> error option" where
  "DeleteStreamRule tr rule = DeleteStreamRules tr [rule]"

subsection \<open>The rules endpoint\<close>

text \<open>
  The server is not part of the repository. This is the behaviour that \<^verbatim>\<open>CreateStreamRule\<close>
  is written against (its comments: the response has status Created also when the rule
  exists already, and then \<^verbatim>\<open>Errors\<close> holds the existing rule): a rule whose value is stored
  already is not created again and is reported with its identifier; a new value gets the
  next identifier.
\<close>

record server =
  stored :: "StreamRule list"
  nextID :: nat

function decimal :: "nat \<Rightarrow> string" where
  "decimal n = (if n < 10 then [''0123456789'' ! n]
                else decimal (n div 10) @ [''0123456789'' ! (n mod 10)])"
  by pat_completeness auto
termination
  by (relation "measure (\<lambda>n. n)") auto

declare decimal.simps [simp del]

fun addRule :: "StreamRule \<Rightarrow> streamRuleResponse \<times> server \<Rightarrow> streamRuleResponse \<times> server" where
  "addRule r (resp, sv) =
     (case find (\<lambda>x. Rule_Rule x = Rule_Rule r) (stored sv) of
        Some existing \<Rightarrow>
          (resp\<lparr>NotCreated := NotCreated resp + 1, Errors := Errors resp @ [existing]\<rparr>, sv)
      | None \<Rightarrow>
          (let new = \<lparr>Rule_ID = decimal (nextID sv), Rule_Rule = Rule_Rule r\<rparr>
           in (resp\<lparr>Created := Created resp + 1, Rules := Rules resp @ [new]\<rparr>,
               sv\<lparr>stored := stored sv @ [new], nextID := Suc (nextID sv)\<rparr>)))"

definition serve :: "server \<Rightarrow> request \<Rightarrow> (error + response) \<times> server" where
  "serve sv req =
     (case req_Body req of
        AddRules rs \<Rightarrow>
          (let (resp, sv') = fold addRule rs (\<lparr>Rules = [], Created = 0, NotCreated = 0, Errors = []\<rparr>, sv)
           in (Inr \<lparr>StatusCode = 201, bodyData = Inr [], bodyRules = Inr resp\<rparr>, sv'))
      | DeleteIds ids \<Rightarrow>
          (Inr \<lparr>StatusCode = 200, bodyData = Inr [],
                bodyRules = Inr \<lparr>Rules = [], Created = 0, NotCreated = 0, Errors = []\<rparr>\<rparr>,
           sv\<lparr>stored := filter (\<lambda>x. Rule_ID x \<notin> set ids) (stored sv)\<rparr>))"

text \<open>Two calls of \<^verbatim>\<open>CreateStreamRule\<close> with the same options, one after the other, against the
  server.\<close>

definition createTwice ::
  "server \<Rightarrow> string list \<Rightarrow> (StreamRule \<times> error option) outcome \<times> (StreamRule \<times> error option) outcome \<times> server \<times> server" where
  "createTwice sv options =
     (let sv1 = snd (serve sv (createRuleRequest options));
          first = CreateStreamRule (\<lambda>req. fst (serve sv req)) options;
          sv2 = snd (serve sv1 (createRuleRequest options));
          second = CreateStreamRule (\<lambda>req. fst (serve sv1 req)) options
      in (first, second, sv1, sv2))"

section \<open>Invariants of the reachable states\<close>

text \<open>
  The channels of the subscriber set are pairwise distinct and were all made by
  \<^verbatim>\<open>SubscribeStream\<close>, and the set holds the subscriptions the trace leaves subscribed.
\<close>

definition subsInv :: "world \<Rightarrow> bool" where
  "subsInv w =
     (distinct (map Sub_Tweets (streamSubscribers (client w))) \<and>
      (\<forall>sub\<in>set (streamSubscribers (client w)). Sub_Tweets sub < chansMade w) \<and>
      set (streamSubscribers (client w)) = liveAfter {} (trace w))"

text \<open>
  A call of \<^verbatim>\<open>stream\<close> that has not returned is the last one started and the flag
  \<^verbatim>\<open>streaming\<close> is set; a call that has returned has cancelled its request and closed the
  response body.
\<close>

definition pumpsInv :: "world \<Rightarrow> bool" where
  "pumpsInv w =
     ((\<forall>i<length (pumps w). active (pumps w ! i) \<longrightarrow>
          streaming (client w) \<and> Suc i = length (pumps w)) \<and>
      (\<forall>p\<in>set (pumps w). \<not> active p \<longrightarrow> cancelled p \<and> \<not> bodyOpen p))"

section \<open>Example values\<close>

definition ruleCats :: StreamRule where
  "ruleCats = \<lparr>Rule_ID = ''1'', Rule_Rule = '' cats''\<rparr>"

definition ruleDogs :: StreamRule where
  "ruleDogs = \<lparr>Rule_ID = ''2'', Rule_Rule = '' dogs''\<rparr>"

definition ruleBirds :: StreamRule where
  "ruleBirds = \<lparr>Rule_ID = ''3'', Rule_Rule = '' birds''\<rparr>"

definition subA :: StreamSubscription where
  "subA = \<lparr>Sub_Tweets = 0, Sub_Rule = ruleCats\<rparr>"

definition subB :: StreamSubscription where
  "subB = \<lparr>Sub_Tweets = 1, Sub_Rule = ruleDogs\<rparr>"

definition subC :: StreamSubscription where
  "subC = \<lparr>Sub_Tweets = 2, Sub_Rule = ruleCats\<rparr>"

definition subBirds :: StreamSubscription where
  "subBirds = \<lparr>Sub_Tweets = 2, Sub_Rule = ruleBirds\<rparr>"

definition rawTweet :: tweet where
  "rawTweet =
     \<lparr>AuthorID = ''7'', tweet_Text = ''hello'', tweet_ID = ''t1'', CreatedAt = ''2021'',
      Metrics = \<lparr>metrics_Retweets = 0, metrics_Replies = 0, metrics_Likes = 5, metrics_Quotes = 0\<rparr>,
      Attachments = \<lparr>MediaKeys = [''m9''], PollIDs = [''p9'']\<rparr>, tweet_Sensitive = False\<rparr>"

definition noIncludes :: includesT where
  "noIncludes = \<lparr>Users = [], Media = [], Polls = []\<rparr>"

definition someIncludes :: includesT where
  "someIncludes =
     \<lparr>Users = [\<lparr>user_ID = ''1'', user_Name = ''one'', user_Handle = ''@one'', user_Picture = ''pic'',
                 user_Verified = True\<rparr>],
      Media = [\<lparr>MediaKey = ''m1'', media_Type = ''photo'', media_URL = ''example.org'',
                 VideoPreviewImageURL = []\<rparr>],
      Polls = [\<lparr>poll_Options = [\<lparr>Position = 1, Label = ''yes'', Votes = 3\<rparr>], poll_ID = ''p1''\<rparr>]\<rparr>"

text \<open>A record whose \<^verbatim>\<open>data.text\<close> is a number: \<^verbatim>\<open>Decode\<close> returns the type error and has
  filled the other fields. It is followed by a well-formed record.\<close>

definition brokenRecord :: decoded where
  "brokenRecord =
     (Some (JSONError ''cannot unmarshal number into Go struct field tweet.data.Text of type string''),
      \<lparr>resp_Tweet = rawTweet\<lparr>tweet_Text := []\<rparr>, resp_Includes = noIncludes, Matches = [ruleCats]\<rparr>)"

definition goodRecord :: decoded where
  "goodRecord = (None, \<lparr>resp_Tweet = rawTweet, resp_Includes = noIncludes, Matches = [ruleCats]\<rparr>)"

text \<open>Transports that answer every request in the same way.\<close>

definition refusing :: transport where
  "refusing req = Inr \<lparr>StatusCode = 400, bodyData = Inr ''no such rule'',
                        bodyRules = Inl (JSONError ''unexpected end of JSON input'')\<rparr>"

definition duplicateAnswer :: transport where
  "duplicateAnswer req =
     Inr \<lparr>StatusCode = 201, bodyData = Inr [],
          bodyRules = Inr \<lparr>Rules = [], Created = 0, NotCreated = 1, Errors = [ruleCats]\<rparr>\<rparr>"

definition emptyServer :: server where
  "emptyServer = \<lparr>stored = [], nextID = 1\<rparr>"

section \<open>Fan-out\<close>

lemma set_sendMatches:
  "set (sendMatches sub t ms) =
     (if Rule_ID (Sub_Rule sub) \<in> set ms then {(Sub_Tweets sub, t)} else {})"
  by (induction ms) auto

lemma set_forward:
  "set (forward subs t) =
     (\<lambda>sub. (Sub_Tweets sub, t)) ` {sub \<in> set subs. Rule_ID (Sub_Rule sub) \<in> set (RuleIDs t)}"
  by (induction subs) (auto simp: set_sendMatches)

text \<open>A subscription is sent the tweet once for every occurrence of its rule's identifier
  in the tweet's list.\<close>

lemma length_sendMatches:
  "length (sendMatches sub t ms) = count_list ms (Rule_ID (Sub_Rule sub))"
  by (induction ms) auto

text \<open>With pairwise distinct channels, a subscription's channel is sent on exactly when
  its rule's identifier is in the tweet's list.\<close>

lemma forward_per_subscription:
  assumes "distinct (map Sub_Tweets subs)" "sub \<in> set subs"
  shows "(Sub_Tweets sub, t) \<in> set (forward subs t) \<longleftrightarrow>
         Rule_ID (Sub_Rule sub) \<in> set (RuleIDs t)"
proof -
  from assms(1) have inj: "inj_on Sub_Tweets (set subs)" by (simp add: distinct_map)
  have "(Sub_Tweets sub, t) \<in> set (forward subs t) \<longleftrightarrow>
        (\<exists>x\<in>set subs. Sub_Tweets x = Sub_Tweets sub \<and> Rule_ID (Sub_Rule x) \<in> set (RuleIDs t))"
    by (force simp: set_forward image_iff)
  also have "\<dots> \<longleftrightarrow> Rule_ID (Sub_Rule sub) \<in> set (RuleIDs t)"
    using inj assms(2) by (auto dest: inj_onD)
  finally show ?thesis .
qed

text \<open>
  Claim C1. For every tweet and every subscriber set, the channels on which the fan-out
  sends are exactly the channels of the subscriptions whose rule identifier occurs in the
  tweet's list of matched rule identifiers, and what is sent is that tweet. With pairwise
  distinct channels (as \<^verbatim>\<open>SubscribeStream\<close> makes them), a subscription of the set is sent
  the tweet if and only if its rule identifier is in the list.
\<close>

theorem fan_out_exact:
  "fst ` set (forward subs t) =
     Sub_Tweets ` {sub \<in> set subs. Rule_ID (Sub_Rule sub) \<in> set (RuleIDs t)}
   \<and> snd ` set (forward subs t) \<subseteq> {t}
   \<and> (distinct (map Sub_Tweets subs) \<and> sub \<in> set subs \<longrightarrow>
        ((Sub_Tweets sub, t) \<in> set (forward subs t) \<longleftrightarrow>
         Rule_ID (Sub_Rule sub) \<in> set (RuleIDs t)))"
  using forward_per_subscription [of subs sub t]
  by (auto simp: set_forward image_iff)

text \<open>Three subscriptions with the rules 1, 2 and 3, and a tweet that matched 1 and 3: it is
  sent on the channels 0 and 2, and not to the subscription with rule 2.\<close>

theorem fan_out_exact_witness:
  "fst ` set (forward [subA, subB, subBirds]
                (convertToTweet rawTweet noIncludes (Some [ruleCats, ruleBirds]))) = {0, 2}
   \<and> distinct (map Sub_Tweets [subA, subB, subBirds])
   \<and> subB \<in> set [subA, subB, subBirds]
   \<and> (Sub_Tweets subB, convertToTweet rawTweet noIncludes (Some [ruleCats, ruleBirds]))
        \<notin> set (forward [subA, subB, subBirds]
                   (convertToTweet rawTweet noIncludes (Some [ruleCats, ruleBirds])))
   \<and> Rule_ID (Sub_Rule subB) \<notin> set (RuleIDs (convertToTweet rawTweet noIncludes (Some [ruleCats, ruleBirds])))"
  using fan_out_exact [of "[subA, subB, subBirds]"
                          "convertToTweet rawTweet noIncludes (Some [ruleCats, ruleBirds])" subB]
  by (simp add: convertToTweet_def rawTweet_def noIncludes_def subA_def subB_def subBirds_def
                ruleCats_def ruleDogs_def ruleBirds_def)

section \<open>The search loop of UnsubscribeStream\<close>

text \<open>The flag ends true exactly when no other subscription has the rule's identifier.\<close>

lemma scan_orphaned:
  "snd (scanSubscribers s subs i idx orph) =
     (orph \<and> (\<forall>sub\<in>set subs. s = sub \<or> Rule_ID (Sub_Rule s) \<noteq> Rule_ID (Sub_Rule sub)))"
  by (induction subs arbitrary: i idx orph) (auto simp: Let_def)

lemma scan_index_absent:
  "s \<notin> set subs \<Longrightarrow> fst (scanSubscribers s subs i idx orph) = idx"
  by (induction subs arbitrary: i idx orph) (auto simp: Let_def)

text \<open>Started with \<open>-1\<close> on a list without duplicates, the loop finds the position of the
  subscription, whether it leaves early or not.\<close>

lemma scan_index_present:
  "distinct subs \<Longrightarrow> s \<in> set subs \<Longrightarrow> 0 \<le> i \<Longrightarrow>
   fst (scanSubscribers s subs i (-1) orph) = i + int (length (takeWhile (\<lambda>x. x \<noteq> s) subs))"
proof (induction subs arbitrary: i orph)
  case Nil
  then show ?case by simp
next
  case (Cons sub rest)
  show ?case
  proof (cases "s = sub")
    case True
    with Cons.prems have "s \<notin> set rest" by simp
    with True Cons.prems show ?thesis
      by (simp add: Let_def scan_index_absent)
  next
    case False
    with Cons.prems have "s \<in> set rest" "distinct rest" by auto
    with False Cons.prems Cons.IH [of "i + 1"] show ?thesis
      by (simp add: Let_def)
  qed
qed

lemma take_drop_remove1:
  "s \<in> set xs \<Longrightarrow>
   take (length (takeWhile (\<lambda>x. x \<noteq> s) xs)) xs @
   drop (Suc (length (takeWhile (\<lambda>x. x \<noteq> s) xs))) xs = remove1 s xs"
  by (induction xs) auto

text \<open>A subscription that is not in the set leaves the set as it is.\<close>

lemma unsubscribe_absent:
  "s \<notin> set (streamSubscribers tw) \<Longrightarrow> fst (UnsubscribeStream tw s) = tw"
  by (simp add: UnsubscribeStream_def split_def Let_def scan_index_absent)

lemma unsubscribe_present:
  assumes "distinct (streamSubscribers tw)" "s \<in> set (streamSubscribers tw)"
  shows "streamSubscribers (fst (UnsubscribeStream tw s)) = remove1 s (streamSubscribers tw)"
  using assms scan_index_present [of "streamSubscribers tw" s 0 True]
  by (simp add: UnsubscribeStream_def split_def Let_def take_drop_remove1)

lemma unsubscribe_subs:
  assumes "distinct (streamSubscribers tw)"
  shows "streamSubscribers (fst (UnsubscribeStream tw s)) = remove1 s (streamSubscribers tw)"
proof (cases "s \<in> set (streamSubscribers tw)")
  case True
  with assms show ?thesis by (rule unsubscribe_present)
next
  case False
  then show ?thesis by (simp add: unsubscribe_absent remove1_idem)
qed

lemma unsubscribe_deletions:
  "deletions (snd (UnsubscribeStream tw s)) =
     (if \<forall>sub\<in>set (streamSubscribers tw). s = sub \<or> Rule_ID (Sub_Rule s) \<noteq> Rule_ID (Sub_Rule sub)
      then [Sub_Rule s] else [])"
  using scan_orphaned [of s "streamSubscribers tw" 0 "-1" True]
  by (simp add: UnsubscribeStream_def split_def Let_def)

lemma unsubscribe_only:
  "streamSubscribers tw = [s] \<Longrightarrow>
   UnsubscribeStream tw s =
     (tw\<lparr>streamSubscribers := []\<rparr>,
      [GoDeleteStreamRule (Sub_Rule s), SendStop, CloseTweets (Sub_Tweets s)])"
  by (simp add: UnsubscribeStream_def)

section \<open>The subscriber set in the reachable states\<close>

lemma liveAfter_append: "liveAfter L (xs @ ys) = liveAfter (liveAfter L xs) ys"
  by (induction L xs rule: liveAfter.induct) auto

lemma liveAfter_snoc:
  "liveAfter L (es @ [e]) =
     (case e of Subscribed s \<Rightarrow> insert s (liveAfter L es)
      | UnsubscribeCalled s \<Rightarrow> liveAfter L es - {s}
      | _ \<Rightarrow> liveAfter L es)"
  by (cases e) (simp_all add: liveAfter_append)

text \<open>\<open>liveAfter\<close> in words: a subscription is left subscribed by a trace if the trace
  subscribes it at some point and does not unsubscribe it later.\<close>

lemma liveAfter_iff:
  "s \<in> liveAfter L es \<longleftrightarrow>
     (\<exists>pre post. es = pre @ Subscribed s # post \<and> UnsubscribeCalled s \<notin> set post) \<or>
     (s \<in> L \<and> UnsubscribeCalled s \<notin> set es)"
proof (induction es rule: rev_induct)
  case Nil
  then show ?case by simp
next
  case (snoc e es)
  show ?case
  proof (cases "e = Subscribed s")
    case True
    have "es @ [Subscribed s] = es @ Subscribed s # [] \<and> UnsubscribeCalled s \<notin> set []" by simp
    then have "\<exists>pre post. es @ [Subscribed s] = pre @ Subscribed s # post \<and> UnsubscribeCalled s \<notin> set post"
      by blast
    with True show ?thesis by (simp add: liveAfter_snoc)
  next
    case notsub: False
    show ?thesis
    proof (cases "e = UnsubscribeCalled s")
      case True
      have "\<not> (\<exists>pre post. es @ [UnsubscribeCalled s] = pre @ Subscribed s # post \<and> UnsubscribeCalled s \<notin> set post)"
      proof
        assume "\<exists>pre post. es @ [UnsubscribeCalled s] = pre @ Subscribed s # post \<and> UnsubscribeCalled s \<notin> set post"
        then obtain pre post where eq: "es @ [UnsubscribeCalled s] = pre @ Subscribed s # post"
          and no: "UnsubscribeCalled s \<notin> set post" by blast
        from eq have "post \<noteq> []" by (cases post) auto
        then obtain post' where "post = post' @ [last post]" by (metis append_butlast_last_id)
        with eq have "last post = UnsubscribeCalled s"
          by (metis append_assoc append_Cons last_snoc)
        with \<open>post \<noteq> []\<close> no show False by (metis last_in_set)
      qed
      with True show ?thesis by (simp add: liveAfter_snoc)
    next
      case False
      have split: "(\<exists>pre post. es @ [e] = pre @ Subscribed s # post \<and> UnsubscribeCalled s \<notin> set post)
               \<longleftrightarrow> (\<exists>pre post. es = pre @ Subscribed s # post \<and> UnsubscribeCalled s \<notin> set post)"
      proof
        assume "\<exists>pre post. es @ [e] = pre @ Subscribed s # post \<and> UnsubscribeCalled s \<notin> set post"
        then obtain pre post where eq: "es @ [e] = pre @ Subscribed s # post"
          and no: "UnsubscribeCalled s \<notin> set post" by blast
        from eq notsub have "post \<noteq> []" by (cases post) auto
        then have post: "post = butlast post @ [last post]" by simp
        with eq have "es @ [e] = (pre @ Subscribed s # butlast post) @ [last post]"
          by (metis append_assoc append_Cons)
        then have "es = pre @ Subscribed s # butlast post" by blast
        moreover from no have "UnsubscribeCalled s \<notin> set (butlast post)"
          by (auto dest: in_set_butlastD)
        ultimately show "\<exists>pre post. es = pre @ Subscribed s # post \<and> UnsubscribeCalled s \<notin> set post"
          by blast
      next
        assume "\<exists>pre post. es = pre @ Subscribed s # post \<and> UnsubscribeCalled s \<notin> set post"
        then obtain pre post where eq: "es = pre @ Subscribed s # post"
          and no: "UnsubscribeCalled s \<notin> set post" by blast
        from eq have "es @ [e] = pre @ Subscribed s # (post @ [e])" by simp
        moreover from no False have "UnsubscribeCalled s \<notin> set (post @ [e])" by auto
        ultimately show "\<exists>pre post. es @ [e] = pre @ Subscribed s # post \<and> UnsubscribeCalled s \<notin> set post"
          by blast
      qed
      have mem: "s \<in> liveAfter L (es @ [e]) \<longleftrightarrow> s \<in> liveAfter L es"
        using False notsub by (cases e) (auto simp: liveAfter_snoc)
      from split mem snoc False show ?thesis by auto
    qed
  qed
qed

lemma streamReturn_simps:
  "streamSubscribers (client (streamReturn i w)) = streamSubscribers (client w)"
  "chansMade (streamReturn i w) = chansMade w"
  "trace (streamReturn i w) = trace w"
  "closedChans (streamReturn i w) = closedChans w"
  "parked (streamReturn i w) = parked w"
  "stopSenders (streamReturn i w) = stopSenders w"
  "streaming (client (streamReturn i w)) = False"
  "pumps (streamReturn i w) =
     (pumps w)[i := (pumps w ! i)\<lparr>pump_pc := Returned, cancelled := True, bodyOpen := False\<rparr>]"
  by (simp_all add: streamReturn_def)

lemma perform_subs:
  "streamSubscribers (client (perform as w)) = streamSubscribers (client w)"
  by (induction as w rule: perform.induct) (auto simp: streamReturn_simps split: option.splits)

lemma perform_chansMade: "chansMade (perform as w) = chansMade w"
  by (induction as w rule: perform.induct) (auto simp: streamReturn_simps split: option.splits)

lemma perform_live: "liveAfter L (trace (perform as w)) = liveAfter L (trace w)"
  by (induction as w rule: perform.induct)
     (auto simp: streamReturn_simps liveAfter_append split: option.splits)

lemma distinct_map_remove1:
  "distinct (map f xs) \<Longrightarrow> distinct (map f (remove1 x xs))"
proof (induction xs)
  case Nil
  then show ?case by simp
next
  case (Cons a xs)
  have "set (remove1 x xs) \<subseteq> set xs" by (rule set_remove1_subset)
  with Cons show ?case by auto
qed

lemma subsInv_initial: "subsInv initial"
  by (simp add: subsInv_def initial_def New_def)

lemma subsInv_exec: 
  assumes "subsInv w" shows "subsInv (exec w x)"
proof (cases x)
  case (OpSubscribe rule)
  with assms show ?thesis
    by (auto simp: subsInv_def SubscribeStream_def Let_def liveAfter_append less_Suc_eq)
next
  case (OpUnsubscribe s)
  from assms have d: "distinct (streamSubscribers (client w))"
    by (auto simp: subsInv_def distinct_map)
  have subs: "streamSubscribers (fst (UnsubscribeStream (client w) s)) =
                remove1 s (streamSubscribers (client w))"
    using d by (rule unsubscribe_subs)
  from assms d OpUnsubscribe show ?thesis
    by (auto simp: subsInv_def split_def Let_def perform_subs perform_chansMade perform_live subs
                   liveAfter_append distinct_map_remove1 dest: notin_set_remove1)
next
  case OpStartStream
  with assms show ?thesis by (auto simp: subsInv_def StartStream_def)
next
  case OpStopStream
  with assms show ?thesis
    by (auto simp: subsInv_def streamReturn_simps liveAfter_append split: option.splits)
next
  case (PumpConnected i)
  with assms show ?thesis by (auto simp: subsInv_def)
next
  case (PumpRequestFailed i)
  with assms show ?thesis by (auto simp: subsInv_def streamReturn_simps)
next
  case (PumpGotError i)
  with assms show ?thesis by (auto simp: subsInv_def streamReturn_simps)
next
  case (PumpGotStopFromUnsubscribe i)
  with assms show ?thesis
    by (auto simp: subsInv_def streamReturn_simps perform_subs perform_chansMade perform_live
                   liveAfter_append split: option.splits)
next
  case (PumpGotStopFromStopStream i)
  with assms show ?thesis by (auto simp: subsInv_def streamReturn_simps liveAfter_append)
next
  case (DecoderEnds i)
  with assms show ?thesis by (auto simp: subsInv_def)
next
  case (ForwarderEnds i)
  with assms show ?thesis by (auto simp: subsInv_def)
qed

lemma subsInv_run: "subsInv w \<Longrightarrow> subsInv (run w xs)"
  by (induction xs arbitrary: w) (auto simp: subsInv_exec)

lemmas world_defs = initial_def New_def SubscribeStream_def UnsubscribeStream_def StartStream_def
  streamReturn_def pumpAt_def Let_def

lemmas example_defs = subA_def subB_def subC_def subBirds_def ruleCats_def ruleDogs_def ruleBirds_def

lemma example_run:
  "client (run initial [OpSubscribe ruleCats, OpSubscribe ruleDogs, OpSubscribe ruleCats]) =
     \<lparr>streamSubscribers = [subA, subB, subC], streaming = False, EnableAllTweetsChannel = False\<rparr>"
  by (simp add: world_defs example_defs)

text \<open>
  Claim C2. In every state reached from a new client, for a subscription \<open>s\<close> of the
  subscriber set: \<^verbatim>\<open>UnsubscribeStream\<close> removes \<open>s\<close>, and it requests the deletion of the
  rule of \<open>s\<close> exactly once if no remaining subscription has the same rule identifier, and
  requests no deletion if a remaining subscription has it.
\<close>

theorem unsubscribe_deletion_requests:
  assumes "tw = client (run initial ops)" and "s \<in> set (streamSubscribers tw)"
  shows "streamSubscribers (fst (UnsubscribeStream tw s)) = remove1 s (streamSubscribers tw) \<and>
         deletions (snd (UnsubscribeStream tw s)) =
           (if \<exists>sub\<in>set (remove1 s (streamSubscribers tw)).
                 Rule_ID (Sub_Rule sub) = Rule_ID (Sub_Rule s)
            then [] else [Sub_Rule s])"
proof -
  have "subsInv (run initial ops)" by (rule subsInv_run [OF subsInv_initial])
  with assms(1) have d: "distinct (streamSubscribers tw)"
    by (auto simp: subsInv_def distinct_map)
  then have rest: "set (remove1 s (streamSubscribers tw)) = set (streamSubscribers tw) - {s}"
    by (rule set_remove1_eq)
  have "deletions (snd (UnsubscribeStream tw s)) =
          (if \<exists>sub\<in>set (remove1 s (streamSubscribers tw)).
                Rule_ID (Sub_Rule sub) = Rule_ID (Sub_Rule s)
           then [] else [Sub_Rule s])"
    unfolding unsubscribe_deletions rest by auto
  with d show ?thesis by (simp add: unsubscribe_subs)
qed

text \<open>Subscriptions A and C share the rule 1, subscription B has the rule 2: removing B
  requests the deletion of rule 2, removing A requests none.\<close>

theorem unsubscribe_deletion_requests_witness:
  "subB \<in> set (streamSubscribers (client (run initial [OpSubscribe ruleCats, OpSubscribe ruleDogs, OpSubscribe ruleCats])))
   \<and> deletions (snd (UnsubscribeStream (client (run initial [OpSubscribe ruleCats, OpSubscribe ruleDogs, OpSubscribe ruleCats])) subB)) = [ruleDogs]
   \<and> subA \<in> set (streamSubscribers (client (run initial [OpSubscribe ruleCats, OpSubscribe ruleDogs, OpSubscribe ruleCats])))
   \<and> deletions (snd (UnsubscribeStream (client (run initial [OpSubscribe ruleCats, OpSubscribe ruleDogs, OpSubscribe ruleCats])) subA)) = []"
  using unsubscribe_deletion_requests [OF refl, of subB "[OpSubscribe ruleCats, OpSubscribe ruleDogs, OpSubscribe ruleCats]"]
        unsubscribe_deletion_requests [OF refl, of subA "[OpSubscribe ruleCats, OpSubscribe ruleDogs, OpSubscribe ruleCats]"]
  unfolding example_run by (simp add: example_defs)

text \<open>
  Claim C3 says that \<^verbatim>\<open>UnsubscribeStream\<close> with a subscription that is not in the subscriber
  set has no effect. The set is indeed unchanged (\<open>unsubscribe_absent\<close>), but the statements
  after the slice update are not guarded by \<^verbatim>\<open>index != -1\<close>. Unsubscribing A a second time,
  while B is still subscribed, requests the deletion of A's rule again and closes A's closed
  channel, which panics. Unsubscribing the only subscription a second time requests the
  deletion again and then waits in the send on \<^verbatim>\<open>stopStreamChan\<close>, holding the lock: the
  call of \<^verbatim>\<open>stream\<close> has returned after the first stop signal.
\<close>

theorem unsubscribe_absent_not_noop:
  "trace (run initial [OpSubscribe ruleCats, OpSubscribe ruleDogs, OpUnsubscribe subA, OpUnsubscribe subA]) =
     [Subscribed subA, Subscribed subB,
      UnsubscribeCalled subA, DeleteRequested ruleCats, Closed 0,
      UnsubscribeCalled subA, DeleteRequested ruleCats, ClosePanic 0]
   \<and> run initial [OpSubscribe ruleCats, OpStartStream, PumpConnected 0, OpUnsubscribe subA, OpUnsubscribe subA] =
      \<lparr>client = New, chansMade = 1, closedChans = [0],
       pumps = [\<lparr>pump_pc = Returned, cancelled = True, bodyOpen = False,
                 decoding = True, forwarding = True\<rparr>],
       parked = Some [CloseTweets 0], stopSenders = 0,
       trace = [Subscribed subA, UnsubscribeCalled subA, DeleteRequested ruleCats, StopReceived 0,
                Closed 0, UnsubscribeCalled subA, DeleteRequested ruleCats]\<rparr>"
  by (simp add: world_defs example_defs)

text \<open>
  Claim C4. After every sequence of steps from a new client (calls of \<^verbatim>\<open>SubscribeStream\<close>
  and \<^verbatim>\<open>UnsubscribeStream\<close>, interleaved in any way with the other steps), the subscriber
  set holds exactly the subscriptions that were returned by \<^verbatim>\<open>SubscribeStream\<close> and not
  passed to \<^verbatim>\<open>UnsubscribeStream\<close> afterwards, each of them once.
\<close>

theorem subscriber_set_exact:
  "(s \<in> set (streamSubscribers (client (run initial ops))) \<longleftrightarrow>
      (\<exists>pre post. trace (run initial ops) = pre @ Subscribed s # post \<and>
                  UnsubscribeCalled s \<notin> set post))
   \<and> set (streamSubscribers (client (run initial ops))) = liveAfter {} (trace (run initial ops))
   \<and> distinct (streamSubscribers (client (run initial ops)))"
  using subsInv_run [OF subsInv_initial, of ops]
        liveAfter_iff [of s "{}" "trace (run initial ops)"]
  by (auto simp: subsInv_def distinct_map)

theorem subscriber_set_exact_witness:
  "set (streamSubscribers (client (run initial
      [OpSubscribe ruleCats, OpStartStream, OpSubscribe ruleDogs, PumpConnected 0,
       OpUnsubscribe subA, OpUnsubscribe subA, OpSubscribe ruleCats]))) = {subB, subC}
   \<and> liveAfter {} (trace (run initial
      [OpSubscribe ruleCats, OpStartStream, OpSubscribe ruleDogs, PumpConnected 0,
       OpUnsubscribe subA, OpUnsubscribe subA, OpSubscribe ruleCats])) = {subB, subC}
   \<and> distinct (streamSubscribers (client (run initial
      [OpSubscribe ruleCats, OpStartStream, OpSubscribe ruleDogs, PumpConnected 0,
       OpUnsubscribe subA, OpUnsubscribe subA, OpSubscribe ruleCats])))"
  using subscriber_set_exact [of subB "[OpSubscribe ruleCats, OpStartStream, OpSubscribe ruleDogs, PumpConnected 0,
       OpUnsubscribe subA, OpUnsubscribe subA, OpSubscribe ruleCats]"]
  by (simp add: world_defs example_defs numeral_2_eq_2)

section \<open>The calls of stream in the reachable states\<close>

lemma firstSelecting_Some:
  "firstSelecting ps k = Some j \<Longrightarrow>
   k \<le> j \<and> j - k < length ps \<and> pump_pc (ps ! (j - k)) = Selecting"
proof (induction ps arbitrary: k)
  case Nil
  then show ?case by simp
next
  case (Cons p ps)
  show ?case
  proof (cases "pump_pc p = Selecting")
    case True
    with Cons.prems show ?thesis by simp
  next
    case False
    with Cons.prems have "firstSelecting ps (Suc k) = Some j" by simp
    from Cons.IH [OF this] have "Suc k \<le> j" "j - Suc k < length ps"
      "pump_pc (ps ! (j - Suc k)) = Selecting" by auto
    then show ?thesis by (auto simp: nth_Cons' Suc_diff_Suc)
  qed
qed

lemma firstSelecting_active:
  "firstSelecting (pumps w) 0 = Some i \<Longrightarrow> i < length (pumps w) \<and> active (pumps w ! i)"
  using firstSelecting_Some [of "pumps w" 0 i] by (simp add: active_def)

lemma pumpsInv_streamReturn:
  assumes "pumpsInv w" "i < length (pumps w)" "active (pumps w ! i)"
  shows "pumpsInv (streamReturn i w)"
proof -
  from assms have last: "Suc i = length (pumps w)" by (simp add: pumpsInv_def)
  have "\<not> active ((pumps (streamReturn i w)) ! j)" if "j < length (pumps w)" for j
  proof (cases "j = i")
    case True
    with that show ?thesis by (simp add: streamReturn_simps active_def)
  next
    case False
    with assms(1) that last have "\<not> active (pumps w ! j)" by (auto simp: pumpsInv_def)
    with False show ?thesis by (simp add: streamReturn_simps)
  qed
  moreover have "cancelled p \<and> \<not> bodyOpen p"
    if "p \<in> set (pumps (streamReturn i w))" "\<not> active p" for p
  proof -
    from that(1) have "p \<in> insert ((pumps w ! i)\<lparr>pump_pc := Returned, cancelled := True, bodyOpen := False\<rparr>) (set (pumps w))"
      using set_update_subset_insert [of "pumps w" i] by (auto simp: streamReturn_simps)
    with that(2) assms(1) show ?thesis by (auto simp: pumpsInv_def)
  qed
  ultimately show ?thesis by (auto simp: pumpsInv_def streamReturn_simps)
qed

lemma pumpsInv_trace [simp]: "pumpsInv (w\<lparr>trace := t\<rparr>) = pumpsInv w"
  by (simp add: pumpsInv_def)

lemma pumpsInv_parked [simp]: "pumpsInv (w\<lparr>parked := t\<rparr>) = pumpsInv w"
  by (simp add: pumpsInv_def)

lemma pumpsInv_closedChans [simp]: "pumpsInv (w\<lparr>closedChans := t\<rparr>) = pumpsInv w"
  by (simp add: pumpsInv_def)

lemma pumpsInv_stopSenders [simp]: "pumpsInv (w\<lparr>stopSenders := t\<rparr>) = pumpsInv w"
  by (simp add: pumpsInv_def)

lemma pumpsInv_perform: "pumpsInv w \<Longrightarrow> pumpsInv (perform as w)"
proof (induction as w rule: perform.induct)
  case (4 as w)
  show ?case
  proof (cases "firstSelecting (pumps w) 0")
    case None
    with 4 show ?thesis by simp
  next
    case (Some i)
    let ?w = "w\<lparr>trace := trace w @ [StopReceived i]\<rparr>"
    from Some have "i < length (pumps ?w) \<and> active (pumps ?w ! i)"
      using firstSelecting_active [of w i] by simp
    with 4(2) have "pumpsInv (streamReturn i ?w)"
      by (intro pumpsInv_streamReturn) auto
    with 4(1) [OF Some] Some show ?thesis by simp
  qed
qed auto

lemma pumpsInv_same_pc:
  assumes "pumpsInv w" "i < length (pumps w)" "pump_pc q = pump_pc (pumps w ! i)"
    "cancelled q = cancelled (pumps w ! i)" "bodyOpen q = bodyOpen (pumps w ! i)"
  shows "pumpsInv (w\<lparr>pumps := (pumps w)[i := q]\<rparr>)"
proof -
  have "cancelled p \<and> \<not> bodyOpen p"
    if "p \<in> set ((pumps w)[i := q])" "\<not> active p" for p
  proof -
    from that(1) have "p = q \<or> p \<in> set (pumps w)"
      using set_update_subset_insert [of "pumps w" i q] by blast
    with that(2) assms show ?thesis
      by (auto simp: pumpsInv_def active_def)
  qed
  with assms show ?thesis
    by (auto simp: pumpsInv_def nth_list_update active_def)
qed

lemma pumpsInv_initial: "pumpsInv initial"
  by (simp add: pumpsInv_def initial_def New_def)

lemma pumpsInv_exec:
  assumes "pumpsInv w" shows "pumpsInv (exec w x)"
proof (cases x)
  case (OpSubscribe rule)
  with assms show ?thesis by (auto simp: pumpsInv_def SubscribeStream_def Let_def)
next
  case (OpUnsubscribe s)
  have "pumpsInv (w\<lparr>client := fst (UnsubscribeStream (client w) s),
                    trace := trace w @ [UnsubscribeCalled s]\<rparr>)"
    using assms by (simp add: pumpsInv_def UnsubscribeStream_def split_def Let_def)
  with assms OpUnsubscribe show ?thesis
    by (simp add: split_def Let_def pumpsInv_perform)
next
  case OpStartStream
  show ?thesis
  proof (cases "parked w = None \<and> \<not> streaming (client w)")
    case True
    with assms have none: "\<forall>i<length (pumps w). \<not> active (pumps w ! i)"
      by (auto simp: pumpsInv_def)
    with assms True OpStartStream show ?thesis
      by (auto simp: pumpsInv_def StartStream_def nth_append active_def)
  next
    case False
    with assms OpStartStream show ?thesis by (auto simp: StartStream_def)
  qed
next
  case OpStopStream
  show ?thesis
  proof (cases "firstSelecting (pumps w) 0")
    case None
    with assms OpStopStream show ?thesis by simp
  next
    case (Some i)
    let ?w = "w\<lparr>trace := trace w @ [StopReceived i]\<rparr>"
    from Some have "i < length (pumps ?w) \<and> active (pumps ?w ! i)"
      using firstSelecting_active [of w i] by simp
    with assms have "pumpsInv (streamReturn i ?w)"
      by (intro pumpsInv_streamReturn) auto
    with Some OpStopStream show ?thesis by simp
  qed
next
  case (PumpConnected i)
  show ?thesis
  proof (cases "pumpAt w i Connecting")
    case True
    have "p \<in> set (pumps w) \<or> active p"
      if "p \<in> set ((pumps w)[i := (pumps w ! i)\<lparr>pump_pc := Selecting, bodyOpen := True,
                                                decoding := True, forwarding := True\<rparr>])" for p
    proof -
      from that have "p \<in> insert ((pumps w ! i)\<lparr>pump_pc := Selecting, bodyOpen := True,
                                decoding := True, forwarding := True\<rparr>) (set (pumps w))"
        using set_update_subset_insert [of "pumps w" i] by blast
      then show ?thesis by (auto simp: active_def)
    qed
    with assms True PumpConnected show ?thesis
      by (auto simp: pumpsInv_def pumpAt_def nth_list_update active_def)
  next
    case False
    with assms PumpConnected show ?thesis by simp
  qed
next
  case (PumpRequestFailed i)
  with assms show ?thesis
    by (auto simp: pumpAt_def active_def intro!: pumpsInv_streamReturn)
next
  case (PumpGotError i)
  with assms show ?thesis
    by (auto simp: pumpAt_def active_def intro!: pumpsInv_streamReturn)
next
  case (PumpGotStopFromUnsubscribe i)
  show ?thesis
  proof (cases "pumpAt w i Selecting")
    case True
    let ?w = "w\<lparr>trace := trace w @ [StopReceived i]\<rparr>"
    from True assms have "pumpsInv (streamReturn i ?w)"
      by (intro pumpsInv_streamReturn) (auto simp: pumpAt_def active_def)
    with assms True PumpGotStopFromUnsubscribe show ?thesis
      by (auto simp: pumpsInv_perform split: option.splits)
  next
    case False
    with assms PumpGotStopFromUnsubscribe show ?thesis by simp
  qed
next
  case (PumpGotStopFromStopStream i)
  show ?thesis
  proof (cases "pumpAt w i Selecting \<and> 0 < stopSenders w")
    case True
    let ?w = "w\<lparr>stopSenders := stopSenders w - 1, trace := trace w @ [StopReceived i]\<rparr>"
    from True assms have "pumpsInv (streamReturn i ?w)"
      by (intro pumpsInv_streamReturn) (auto simp: pumpAt_def active_def)
    with True PumpGotStopFromStopStream show ?thesis by simp
  next
    case False
    with assms PumpGotStopFromStopStream show ?thesis by auto
  qed
next
  case (DecoderEnds i)
  show ?thesis
  proof (cases "i < length (pumps w) \<and> decoding (pumps w ! i)")
    case True
    with assms have "pumpsInv (w\<lparr>pumps := (pumps w)[i := (pumps w ! i)\<lparr>decoding := False\<rparr>]\<rparr>)"
      by (intro pumpsInv_same_pc) auto
    with True DecoderEnds show ?thesis by simp
  next
    case False
    with assms DecoderEnds show ?thesis by auto
  qed
next
  case (ForwarderEnds i)
  show ?thesis
  proof (cases "i < length (pumps w) \<and> forwarding (pumps w ! i) \<and> \<not> decoding (pumps w ! i)")
    case True
    with assms have "pumpsInv (w\<lparr>pumps := (pumps w)[i := (pumps w ! i)\<lparr>forwarding := False\<rparr>]\<rparr>)"
      by (intro pumpsInv_same_pc) auto
    with True ForwarderEnds show ?thesis by simp
  next
    case False
    with assms ForwarderEnds show ?thesis by auto
  qed
qed

lemma pumpsInv_run: "pumpsInv w \<Longrightarrow> pumpsInv (run w xs)"
  by (induction xs arbitrary: w) (auto simp: pumpsInv_exec)

lemma pumpsInv_at_most_one:
  assumes "pumpsInv w" shows "length (filter active (pumps w)) \<le> 1"
proof (cases "pumps w" rule: rev_cases)
  case Nil
  then show ?thesis by simp
next
  case (snoc ps p)
  have "\<not> active q" if "q \<in> set ps" for q
  proof -
    from that obtain i where i: "i < length ps" "ps ! i = q" by (auto simp: in_set_conv_nth)
    with snoc have "pumps w ! i = q" "i < length (pumps w)" "Suc i \<noteq> length (pumps w)"
      by (auto simp: nth_append)
    with assms show ?thesis by (auto simp: pumpsInv_def)
  qed
  then have "filter active ps = []" by (auto simp: filter_empty_conv)
  with snoc show ?thesis by simp
qed



text \<open>Without a call of \<^verbatim>\<open>stream\<close> at its \<^verbatim>\<open>select\<close>, the caller stays parked in the send,
  with the lock.\<close>

lemma unsubscribe_last_without_pump:
  assumes "parked w = None" and "streamSubscribers (client w) = [s]"
      and "firstSelecting (pumps w) 0 = None"
  shows "parked (exec w (OpUnsubscribe s)) = Some [CloseTweets (Sub_Tweets s)]"
  using assms by (simp add: unsubscribe_only)

text \<open>
  While the call of \<^verbatim>\<open>stream\<close> is still waiting for the response, the caller is parked. When
  the response arrives the call of \<^verbatim>\<open>stream\<close> reaches its \<^verbatim>\<open>select\<close>, receives the signal and
  returns, and \<^verbatim>\<open>UnsubscribeStream\<close> completes. When the request fails the call of \<^verbatim>\<open>stream\<close>
  returns as well, and the caller stays parked.
\<close>

lemma unsubscribe_last_while_connecting:
  assumes "parked w = None" and "streamSubscribers (client w) = [s]"
      and "firstSelecting (pumps w) 0 = None" and "pumpAt w i Connecting"
  shows "parked (exec w (OpUnsubscribe s)) = Some [CloseTweets (Sub_Tweets s)]
       \<and> \<not> streaming (client (run w [OpUnsubscribe s, PumpConnected i, PumpGotStopFromUnsubscribe i]))
       \<and> pump_pc (pumps (run w [OpUnsubscribe s, PumpConnected i, PumpGotStopFromUnsubscribe i]) ! i) = Returned
       \<and> parked (run w [OpUnsubscribe s, PumpConnected i, PumpGotStopFromUnsubscribe i]) = None
       \<and> \<not> streaming (client (run w [OpUnsubscribe s, PumpRequestFailed i]))
       \<and> parked (run w [OpUnsubscribe s, PumpRequestFailed i]) = Some [CloseTweets (Sub_Tweets s)]"
  using assms by (simp add: unsubscribe_only pumpAt_def streamReturn_def)

text \<open>
  Once a caller is parked and every call of \<^verbatim>\<open>stream\<close> has returned, nothing changes any
  more: \<^verbatim>\<open>StartStream\<close> needs the lock that the parked caller holds, so no call of \<^verbatim>\<open>stream\<close>
  will ever receive the signal.
\<close>

lemma firstSelecting_none:
  "\<forall>p\<in>set ps. pump_pc p = Returned \<Longrightarrow> firstSelecting ps k = None"
  by (induction ps arbitrary: k) auto

lemma returned_update:
  assumes "\<forall>p\<in>set ps. pump_pc p = Returned" and "pump_pc q = Returned"
  shows "\<forall>p\<in>set (ps[i := q]). pump_pc p = Returned"
proof
  fix p assume "p \<in> set (ps[i := q])"
  then have "p = q \<or> p \<in> set ps"
    using set_update_subset_insert [of ps i q] by blast
  with assms show "pump_pc p = Returned" by blast
qed

lemma parked_without_pump_exec:
  assumes "parked w = Some as" and "\<forall>p\<in>set (pumps w). pump_pc p = Returned"
  shows "parked (exec w x) = Some as \<and> (\<forall>p\<in>set (pumps (exec w x)). pump_pc p = Returned)
       \<and> trace (exec w x) = trace w \<and> client (exec w x) = client w
       \<and> closedChans (exec w x) = closedChans w"
proof -
  have at: "\<not> pumpAt w i Connecting" "\<not> pumpAt w i Selecting" for i
    using assms(2) by (auto simp: pumpAt_def)
  show ?thesis
  proof (cases x)
    case (OpSubscribe rule)
    with assms(1) show ?thesis using assms(2) by simp
  next
    case (OpUnsubscribe s)
    with assms(1) show ?thesis using assms(2) by simp
  next
    case OpStartStream
    with assms(1) show ?thesis using assms(2) by simp
  next
    case OpStopStream
    with assms show ?thesis by (simp add: firstSelecting_none)
  next
    case (PumpConnected i)
    with assms at [of i] show ?thesis by simp
  next
    case (PumpRequestFailed i)
    with assms at [of i] show ?thesis by simp
  next
    case (PumpGotError i)
    with assms at [of i] show ?thesis by simp
  next
    case (PumpGotStopFromUnsubscribe i)
    with assms at [of i] show ?thesis by simp
  next
    case (PumpGotStopFromStopStream i)
    with assms at [of i] show ?thesis by simp
  next
    case (DecoderEnds i)
    show ?thesis
    proof (cases "i < length (pumps w) \<and> decoding (pumps w ! i)")
      case True
      with assms(2) have "pump_pc ((pumps w ! i)\<lparr>decoding := False\<rparr>) = Returned" by simp
      from returned_update [OF assms(2) this, of i] True DecoderEnds assms(1)
      show ?thesis by simp
    next
      case False
      with DecoderEnds assms show ?thesis by auto
    qed
  next
    case (ForwarderEnds i)
    show ?thesis
    proof (cases "i < length (pumps w) \<and> forwarding (pumps w ! i) \<and> \<not> decoding (pumps w ! i)")
      case True
      with assms(2) have "pump_pc ((pumps w ! i)\<lparr>forwarding := False\<rparr>) = Returned" by simp
      from returned_update [OF assms(2) this, of i] True ForwarderEnds assms(1)
      show ?thesis by simp
    next
      case False
      with ForwarderEnds assms show ?thesis by auto
    qed
  qed
qed

lemma parked_without_pump_run:
  assumes "parked w = Some as" and "\<forall>p\<in>set (pumps w). pump_pc p = Returned"
  shows "parked (run w xs) = Some as \<and> trace (run w xs) = trace w
       \<and> client (run w xs) = client w \<and> closedChans (run w xs) = closedChans w"
  using assms
proof (induction xs arbitrary: w)
  case Nil
  then show ?case by simp
next
  case (Cons x xs)
  from parked_without_pump_exec [OF Cons.prems, of x]
  have step: "parked (exec w x) = Some as" "\<forall>p\<in>set (pumps (exec w x)). pump_pc p = Returned"
    "trace (exec w x) = trace w" "client (exec w x) = client w"
    "closedChans (exec w x) = closedChans w" by auto
  from Cons.IH [OF step(1,2)] step(3,4,5) show ?case by simp
qed


text \<open>
  Claim C8, as far as the code goes. In every reachable state at most one call of \<^verbatim>\<open>stream\<close>
  has not returned; \<^verbatim>\<open>StartStream\<close> with the flag set changes nothing; and when
  \<^verbatim>\<open>StartStream\<close> starts a call of \<^verbatim>\<open>stream\<close>, every earlier call has returned, with its
  request cancelled and its response body closed.
\<close>

theorem at_most_one_pump:
  assumes "w = run initial ops"
  shows "length (filter active (pumps w)) \<le> 1
       \<and> (streaming (client w) \<longrightarrow> exec w OpStartStream = w)
       \<and> (pumps (exec w OpStartStream) \<noteq> pumps w \<longrightarrow>
            (\<forall>p\<in>set (pumps w). pump_pc p = Returned \<and> cancelled p \<and> \<not> bodyOpen p))"
proof -
  have inv: "pumpsInv w" unfolding assms by (rule pumpsInv_run [OF pumpsInv_initial])
  then have one: "length (filter active (pumps w)) \<le> 1" by (rule pumpsInv_at_most_one)
  have noop: "exec w OpStartStream = w" if "streaming (client w)"
    using that by (simp add: StartStream_def)
  have stopped: "pump_pc p = Returned \<and> cancelled p \<and> \<not> bodyOpen p"
    if "pumps (exec w OpStartStream) \<noteq> pumps w" "p \<in> set (pumps w)" for p
  proof -
    from that(1) have off: "\<not> streaming (client w)"
      by (auto simp: StartStream_def split: if_splits)
    from that(2) obtain j where "j < length (pumps w)" "pumps w ! j = p"
      by (auto simp: in_set_conv_nth)
    with inv off have "\<not> active p" by (auto simp: pumpsInv_def)
    with inv that(2) show ?thesis by (auto simp: pumpsInv_def active_def)
  qed
  from one noop stopped show ?thesis by blast
qed

theorem at_most_one_pump_witness:
  "streaming (client (run initial [OpStartStream, PumpConnected 0]))
   \<and> exec (run initial [OpStartStream, PumpConnected 0]) OpStartStream
       = run initial [OpStartStream, PumpConnected 0]
   \<and> length (filter active (pumps (run initial [OpStartStream, PumpConnected 0]))) = 1
   \<and> pumps (exec (run initial [OpStartStream, PumpGotError 0, PumpRequestFailed 0]) OpStartStream)
       \<noteq> pumps (run initial [OpStartStream, PumpGotError 0, PumpRequestFailed 0])
   \<and> map pump_pc (pumps (run initial [OpStartStream, PumpGotError 0, PumpRequestFailed 0])) = [Returned]"
  using at_most_one_pump [OF refl, of "[OpStartStream, PumpConnected 0]"]
        at_most_one_pump [OF refl, of "[OpStartStream, PumpGotError 0, PumpRequestFailed 0]"]
  by (simp add: world_defs active_def)

text \<open>
  Claim C8 as it is written fails on the last part. The state \<^verbatim>\<open>Stopped\<close> of the
  specification also asks that the goroutines for decoding and forwarding have ended. \<^verbatim>\<open>stream\<close> does not wait for them: after a stop signal the call
  has returned and reset the flag while both goroutines are still there, and \<^verbatim>\<open>StartStream\<close>
  starts the next call.
\<close>

theorem new_pump_before_stopped:
  "pumps (run initial [OpStartStream, PumpConnected 0, OpStopStream]) =
     [\<lparr>pump_pc = Returned, cancelled = True, bodyOpen = False, decoding = True, forwarding = True\<rparr>]
   \<and> \<not> Stopped (pumps (run initial [OpStartStream, PumpConnected 0, OpStopStream]) ! 0)
   \<and> pumps (exec (run initial [OpStartStream, PumpConnected 0, OpStopStream]) OpStartStream) =
     [\<lparr>pump_pc = Returned, cancelled = True, bodyOpen = False, decoding = True, forwarding = True\<rparr>,
      \<lparr>pump_pc = Connecting, cancelled = False, bodyOpen = False, decoding = False, forwarding = False\<rparr>]"
  by (simp add: world_defs Stopped_def)

section \<open>Conversion\<close>

lemma resolveAuthor_absent:
  "aid \<notin> user_ID ` set us \<Longrightarrow> resolveAuthor us aid author = author"
  by (induction us) auto

lemma mediaItems_absent:
  "k \<notin> MediaKey ` set ms \<Longrightarrow> mediaItems k ms acc = acc"
  by (induction k ms acc rule: mediaItems.induct) auto

lemma mediaKeysLoop_filter:
  "mediaKeysLoop ks ms acc = mediaKeysLoop (filter (\<lambda>k. k \<in> MediaKey ` set ms) ks) ms acc"
  by (induction ks arbitrary: acc) (auto simp: mediaItems_absent)

lemma pollItems_absent:
  "k \<notin> poll_ID ` set ps \<Longrightarrow> pollItems k ps opts = opts"
  by (induction ps arbitrary: opts) auto

lemma pollIDsLoop_filter:
  "pollIDsLoop ks ps opts = pollIDsLoop (filter (\<lambda>k. k \<in> poll_ID ` set ps) ks) ps opts"
  by (induction ks arbitrary: opts) (auto simp: pollItems_absent)

lemma filter_none: "set ks \<inter> A = {} \<Longrightarrow> filter (\<lambda>k. k \<in> A) ks = []"
  by (induction ks) auto

text \<open>
  Claim C9. \<^verbatim>\<open>convertToTweet\<close> returns a tweet for every record and every bundle of includes
  (it has no error result). Media keys and poll IDs without an entry in the bundle contribute
  nothing: the result is the same as without them. An author ID without an entry leaves the
  zero author; when no media key has an entry there are no images, no video and no preview
  URL; when no poll ID has an entry there are no poll options.
\<close>

theorem convert_unresolved:
  "convertToTweet tw incl m =
     convertToTweet
       (tw\<lparr>Attachments :=
             \<lparr>MediaKeys = filter (\<lambda>k. k \<in> MediaKey ` set (Media incl)) (MediaKeys (Attachments tw)),
              PollIDs = filter (\<lambda>k. k \<in> poll_ID ` set (Polls incl)) (PollIDs (Attachments tw))\<rparr>\<rparr>)
       incl m
   \<and> (AuthorID tw \<notin> user_ID ` set (Users incl) \<longrightarrow>
        Tweet_Author (convertToTweet tw incl m) = zeroAuthor)
   \<and> (set (MediaKeys (Attachments tw)) \<inter> MediaKey ` set (Media incl) = {} \<longrightarrow>
        Images (convertToTweet tw incl m) = [] \<and> \<not> HasVideo (convertToTweet tw incl m) \<and>
        VideoPreviewURL (convertToTweet tw incl m) = [])
   \<and> (set (PollIDs (Attachments tw)) \<inter> poll_ID ` set (Polls incl) = {} \<longrightarrow>
        Poll (convertToTweet tw incl m) = [])
   \<and> Tweet_ID (convertToTweet tw incl m) = tweet_ID tw
   \<and> Tweet_Text (convertToTweet tw incl m) = tweet_Text tw"
proof -
  have drop: "convertToTweet tw incl m =
     convertToTweet
       (tw\<lparr>Attachments :=
             \<lparr>MediaKeys = filter (\<lambda>k. k \<in> MediaKey ` set (Media incl)) (MediaKeys (Attachments tw)),
              PollIDs = filter (\<lambda>k. k \<in> poll_ID ` set (Polls incl)) (PollIDs (Attachments tw))\<rparr>\<rparr>)
       incl m"
    using mediaKeysLoop_filter [of "MediaKeys (Attachments tw)" "Media incl" "([], False, [])"]
          pollIDsLoop_filter [of "PollIDs (Attachments tw)" "Polls incl" "[]"]
    by (simp add: convertToTweet_def)
  have author: "Tweet_Author (convertToTweet tw incl m) = zeroAuthor"
    if "AuthorID tw \<notin> user_ID ` set (Users incl)"
    using that by (simp add: convertToTweet_def split_def Let_def resolveAuthor_absent)
  have media: "Images (convertToTweet tw incl m) = [] \<and> \<not> HasVideo (convertToTweet tw incl m) \<and>
        VideoPreviewURL (convertToTweet tw incl m) = []"
    if "set (MediaKeys (Attachments tw)) \<inter> MediaKey ` set (Media incl) = {}"
    using filter_none [OF that]
          mediaKeysLoop_filter [of "MediaKeys (Attachments tw)" "Media incl" "([], False, [])"]
    by (simp add: convertToTweet_def split_def Let_def)
  have polls: "Poll (convertToTweet tw incl m) = []"
    if "set (PollIDs (Attachments tw)) \<inter> poll_ID ` set (Polls incl) = {}"
    using filter_none [OF that]
          pollIDsLoop_filter [of "PollIDs (Attachments tw)" "Polls incl" "[]"]
    by (simp add: convertToTweet_def split_def Let_def)
  have rest: "Tweet_ID (convertToTweet tw incl m) = tweet_ID tw \<and>
              Tweet_Text (convertToTweet tw incl m) = tweet_Text tw"
    by (simp add: convertToTweet_def split_def Let_def)
  from drop author media polls rest show ?thesis by blast
qed

theorem convert_unresolved_witness:
  "AuthorID rawTweet \<notin> user_ID ` set (Users someIncludes)
   \<and> set (MediaKeys (Attachments rawTweet)) \<inter> MediaKey ` set (Media someIncludes) = {}
   \<and> set (PollIDs (Attachments rawTweet)) \<inter> poll_ID ` set (Polls someIncludes) = {}
   \<and> Tweet_Author (convertToTweet rawTweet someIncludes None) = zeroAuthor
   \<and> Images (convertToTweet rawTweet someIncludes None) = []
   \<and> \<not> HasVideo (convertToTweet rawTweet someIncludes None)
   \<and> VideoPreviewURL (convertToTweet rawTweet someIncludes None) = []
   \<and> Poll (convertToTweet rawTweet someIncludes None) = []
   \<and> Tweet_Text (convertToTweet rawTweet someIncludes None) = ''hello''"
  using convert_unresolved [of rawTweet someIncludes None]
  by (simp add: rawTweet_def someIncludes_def convertToTweet_def zeroAuthor_def)

section \<open>The decoding goroutine\<close>

text \<open>An error received from \<^verbatim>\<open>errChan\<close> ends the call of \<^verbatim>\<open>stream\<close>: it returns, the response
  body is closed, the request cancelled and the flag reset.\<close>

lemma decode_error_ends_stream:
  assumes "pumpAt w i Selecting" and "decoding (pumps w ! i)"
  shows "\<not> streaming (client (exec w (PumpGotError i)))
       \<and> pump_pc (pumps (exec w (PumpGotError i)) ! i) = Returned
       \<and> cancelled (pumps (exec w (PumpGotError i)) ! i)
       \<and> \<not> bodyOpen (pumps (exec w (PumpGotError i)) ! i)"
  using assms by (simp add: pumpAt_def streamReturn_def)

text \<open>
  Claim C6 says that the first decode failure ends the decoding loop, so that nothing more
  is decoded or delivered in that run. The failure is sent on \<^verbatim>\<open>errChan\<close> and \<^verbatim>\<open>stream\<close>
  returns, but the loop body has no \<^verbatim>\<open>return\<close> after the send: the goroutine converts the
  record that failed and sends it on \<^verbatim>\<open>tweetChan\<close>, and goes on with \<^verbatim>\<open>decoder.More()\<close>.
  Here the record that failed and the record after it both reach the subscriber of rule 1.
\<close>

theorem decode_error_not_final:
  "decodeLoop False True [brokenRecord, goodRecord] =
     [ErrChanSend (JSONError ''cannot unmarshal number into Go struct field tweet.data.Text of type string''),
      TweetChanSend (convertToTweet (rawTweet\<lparr>tweet_Text := []\<rparr>) noIncludes (Some [ruleCats])),
      TweetChanSend (convertToTweet rawTweet noIncludes (Some [ruleCats])),
      TweetChanClose]
   \<and> deliveries [subA] (afterError (decodeLoop False True [brokenRecord, goodRecord])) =
     [(0, convertToTweet (rawTweet\<lparr>tweet_Text := []\<rparr>) noIncludes (Some [ruleCats])),
      (0, convertToTweet rawTweet noIncludes (Some [ruleCats]))]"
  by (simp add: brokenRecord_def goodRecord_def emitTweet_def convertToTweet_def subA_def
                ruleCats_def rawTweet_def noIncludes_def)

section \<open>Rules\<close>

lemma find_snoc:
  "find P (xs @ [x]) = (case find P xs of None \<Rightarrow> (if P x then Some x else None) | Some y \<Rightarrow> Some y)"
  by (induction xs) auto

lemma create_duplicate:
  assumes "tr (createRuleRequest options) = Inr result" "StatusCode result = 201"
    "bodyRules result = Inr r" "Created r \<noteq> 1" "Errors r \<noteq> []"
  shows "CreateStreamRule tr options = Return (Errors r ! 0, None)"
  using assms by (simp add: CreateStreamRule_def)

lemma create_failed:
  assumes "tr (createRuleRequest options) = Inr result" "StatusCode result \<noteq> 201"
  shows "\<exists>rule. CreateStreamRule tr options = Return (rule, Some FailedToCreateRule)"
  using assms by (simp add: CreateStreamRule_def)

lemma create_twice:
  assumes "createTwice sv options = (first, second, sv1, sv2)"
  shows "\<exists>rule. first = Return (rule, None) \<and> second = Return (rule, None) \<and>
           rule \<in> set (stored sv1) \<and> sv2 = sv1"
proof (cases "find (\<lambda>x. Rule_Rule x = concat (map (\<lambda>option. '' '' @ option) options)) (stored sv)")
  case None
  with assms show ?thesis
    by (auto simp: createTwice_def serve_def createRuleRequest_def CreateStreamRule_def
                   Let_def find_snoc)
next
  case (Some existing)
  then have "existing \<in> set (stored sv)" by (auto simp: find_Some_iff)
  with Some assms show ?thesis
    by (auto simp: createTwice_def serve_def createRuleRequest_def CreateStreamRule_def Let_def)
qed

text \<open>
  Claim C5. When the response has status Created, a created count other than 1 and a
  non-empty list of errors, \<^verbatim>\<open>CreateStreamRule\<close> returns the first entry of that list, the
  existing rule, and no error. Two calls with the same options against the rules endpoint
  return the same rule, with the same identifier and no error, and the second call stores no
  new rule and uses no new identifier. A response with a status other than Created returns
  the error of a failed creation.
\<close>

theorem create_rule_idempotent:
  "(tr (createRuleRequest options) = Inr result \<and> StatusCode result = 201 \<and>
    bodyRules result = Inr r \<and> Created r \<noteq> 1 \<and> Errors r \<noteq> [] \<longrightarrow>
      CreateStreamRule tr options = Return (Errors r ! 0, None))
   \<and> (createTwice sv options = (first, second, sv1, sv2) \<longrightarrow>
        (\<exists>rule. first = Return (rule, None) \<and> second = Return (rule, None) \<and>
                rule \<in> set (stored sv1) \<and> sv2 = sv1))
   \<and> (tr' (createRuleRequest options) = Inr result' \<and> StatusCode result' \<noteq> 201 \<longrightarrow>
        (\<exists>rule. CreateStreamRule tr' options = Return (rule, Some FailedToCreateRule)))"
  using create_duplicate [of tr options result r] create_twice [of sv options first second sv1 sv2]
        create_failed [of tr' options result']
  by blast

theorem create_rule_idempotent_witness:
  "duplicateAnswer (createRuleRequest [''cats'']) =
       Inr \<lparr>StatusCode = 201, bodyData = Inr [],
            bodyRules = Inr \<lparr>Rules = [], Created = 0, NotCreated = 1, Errors = [ruleCats]\<rparr>\<rparr>
   \<and> CreateStreamRule duplicateAnswer [''cats''] = Return (ruleCats, None)
   \<and> createTwice emptyServer [''cats''] =
       (Return (ruleCats, None), Return (ruleCats, None),
        \<lparr>stored = [ruleCats], nextID = 2\<rparr>, \<lparr>stored = [ruleCats], nextID = 2\<rparr>)
   \<and> refusing (createRuleRequest [''cats'']) =
       Inr \<lparr>StatusCode = 400, bodyData = Inr ''no such rule'',
            bodyRules = Inl (JSONError ''unexpected end of JSON input'')\<rparr>
   \<and> CreateStreamRule refusing [''cats''] =
       Return (\<lparr>Rule_ID = [], Rule_Rule = '' cats''\<rparr>, Some FailedToCreateRule)"
  using create_rule_idempotent [of duplicateAnswer "[''cats'']"
          "\<lparr>StatusCode = 201, bodyData = Inr [],
            bodyRules = Inr \<lparr>Rules = [], Created = 0, NotCreated = 1, Errors = [ruleCats]\<rparr>\<rparr>"
          "\<lparr>Rules = [], Created = 0, NotCreated = 1, Errors = [ruleCats]\<rparr>"
          emptyServer "Return (ruleCats, None)" "Return (ruleCats, None)"
          "\<lparr>stored = [ruleCats], nextID = 2\<rparr>" "\<lparr>stored = [ruleCats], nextID = 2\<rparr>"
          refusing
          "\<lparr>StatusCode = 400, bodyData = Inr ''no such rule'',
            bodyRules = Inl (JSONError ''unexpected end of JSON input'')\<rparr>"]
  by (simp add: duplicateAnswer_def refusing_def emptyServer_def createTwice_def serve_def
                createRuleRequest_def CreateStreamRule_def ruleCats_def decimal.simps Let_def)

text \<open>
  Claim C10. \<^verbatim>\<open>DeleteStreamRule\<close> of a rule hands the same request to the transport as
  \<^verbatim>\<open>DeleteStreamRules\<close> of the list of that rule, a request whose list of identifiers is
  the identifier of the rule, and returns the same error.
\<close>

theorem delete_rule_is_delete_rules:
  "DeleteStreamRule tr rule = DeleteStreamRules tr [rule]
   \<and> fst (DeleteStreamRule tr rule) =
       \<lparr>req_Method = ''POST'', req_URL = rulesURL, req_ContentType = ''application/json'',
        req_Body = DeleteIds [Rule_ID rule]\<rparr>
   \<and> snd (DeleteStreamRule tr rule) = snd (DeleteStreamRules tr [rule])"
  by (simp add: DeleteStreamRule_def DeleteStreamRules_def deleteRulesRequest_def Let_def)

theorem delete_rule_is_delete_rules_witness:
  "DeleteStreamRule refusing ruleCats =
     (\<lparr>req_Method = ''POST'', req_URL = rulesURL, req_ContentType = ''application/json'',
       req_Body = DeleteIds [''1'']\<rparr>, Some (FailedToDeleteRule ''no such rule''))
   \<and> DeleteStreamRules refusing [ruleCats] =
     (\<lparr>req_Method = ''POST'', req_URL = rulesURL, req_ContentType = ''application/json'',
       req_Body = DeleteIds [''1'']\<rparr>, Some (FailedToDeleteRule ''no such rule''))"
  using delete_rule_is_delete_rules [of refusing ruleCats]
  by (simp add: DeleteStreamRules_def deleteRulesRequest_def refusing_def ruleCats_def Let_def)

end
